theory Spec2Isabelle
  imports Main
begin

section \<open>Data model\<close>

text \<open>
  JavaScript numbers that the scheduler only copies from the inventory into a row (tile
  ids, lattice positions and steps, the accumulated counters) are integers here; no
  arithmetic is done on them. A \<open>Date\<close> is the reading of the clock it was made from.
\<close>

type_synonym number = int
type_synonym date = nat

text \<open>
  Modelled from the spec: the enumeration \<open>TilePipelineStatus\<close> is declared in
  \<open>basePipelineScheduler\<close>, which is not among the sources; the spec lists
  Incomplete=1, Queued=2, Processing=3, Complete=4, Failed=5, Canceled=6.
\<close>

datatype TilePipelineStatus = Incomplete | Queued | Processing | Complete | Failed | Canceled

text \<open>\<open>IPipelineTileAttributes\<close>: the eleven fields the parsers fill in.\<close>

record IPipelineTileAttributes =
  relative_path :: string
  index :: "number option"
  tile_name :: string
  prev_stage_status :: TilePipelineStatus
  this_stage_status :: TilePipelineStatus
  lat_x :: "number option"
  lat_y :: "number option"
  lat_z :: "number option"
  step_x :: "number option"
  step_y :: "number option"
  step_z :: "number option"

text \<open>\<open>IPipelineTile\<close>: a persisted row, the attributes and the fields the muxer sets on insert.\<close>

record IPipelineTile = IPipelineTileAttributes +
  duration :: number
  cpu_high :: number
  memory_high :: number
  created_at :: date
  updated_at :: date

record IMuxTileLists =
  toInsert :: "IPipelineTile list"
  toUpdate :: "IPipelineTile list"
  toReset :: "IPipelineTile list"
  toDelete :: "string list"

datatype js_error = TypeError | SyntaxError | IOError

section \<open>The lodash helpers used by the muxer\<close>

text \<open>
  \<open>_.differenceBy(array, values, key)\<close>: the elements of \<open>array\<close> whose key is the key of
  no element of \<open>values\<close>, in the order of \<open>array\<close>; repeated elements are all kept.
  The two key functions read the same property from the elements of the two arrays.
\<close>

definition differenceBy ::
  "('a \<Rightarrow> 'k) \<Rightarrow> ('b \<Rightarrow> 'k) \<Rightarrow> 'a list \<Rightarrow> 'b list \<Rightarrow> 'a list" where
  "differenceBy f g array vals = filter (\<lambda>v. f v \<notin> set (map g vals)) array"

text \<open>
  \<open>_.intersectionBy(array, values, key)\<close>: the unique elements of \<open>array\<close> whose key is a
  key of \<open>values\<close>: the loop keeps the keys it has pushed (\<open>seen\<close>) and skips an element
  whose key is among them, so the first element of each key is the one kept. (The loop
  of the library also stops once the result is as long as the shortest array; by then
  every common key has been pushed, so the bound changes no result and is left out.)
\<close>

fun baseIntersection :: "('a \<Rightarrow> 'k) \<Rightarrow> 'k list \<Rightarrow> 'k list \<Rightarrow> 'a list \<Rightarrow> 'a list" where
  "baseIntersection f others seen [] = []"
| "baseIntersection f others seen (v # vs) =
     (if f v \<notin> set seen \<and> f v \<in> set others
      then v # baseIntersection f others (f v # seen) vs
      else baseIntersection f others seen vs)"

definition intersectionBy ::
  "('a \<Rightarrow> 'k) \<Rightarrow> ('b \<Rightarrow> 'k) \<Rightarrow> 'a list \<Rightarrow> 'b list \<Rightarrow> 'a list" where
  "intersectionBy f g array vals = baseIntersection f (map g vals) [] array"

section \<open>The tile muxer\<close>

text \<open>
  Modelled from the spec: the constant \<open>DefaultPipelineIdKey\<close> is declared in
  \<open>basePipelineScheduler\<close>, which is not among the sources; the spec names
  \<open>relative_path\<close> as the identity key of the muxer. As a lodash iteratee the name
  stands for reading that property.
\<close>

definition DefaultPipelineIdKey :: "'a IPipelineTileAttributes_scheme \<Rightarrow> string" where
  "DefaultPipelineIdKey = relative_path"

text \<open>The row built for an inventory tile that is not yet persisted.\<close>

definition insertRow :: "date \<Rightarrow> IPipelineTileAttributes \<Rightarrow> IPipelineTile" where
  "insertRow now inputTile =
     \<lparr> relative_path = relative_path inputTile, index = index inputTile,
       tile_name = tile_name inputTile,
       prev_stage_status = prev_stage_status inputTile,
       this_stage_status = this_stage_status inputTile,
       lat_x = lat_x inputTile, lat_y = lat_y inputTile, lat_z = lat_z inputTile,
       step_x = step_x inputTile, step_y = step_y inputTile, step_z = step_z inputTile,
       duration = 0, cpu_high = 0, memory_high = 0,
       created_at = now, updated_at = now \<rparr>"

text \<open>The assignments made to an existing row that needs an update.\<close>

definition mergeRow :: "date \<Rightarrow> IPipelineTileAttributes \<Rightarrow> IPipelineTile \<Rightarrow> IPipelineTile" where
  "mergeRow now inputTile existingTile =
     existingTile \<lparr> tile_name := tile_name inputTile, index := index inputTile,
       prev_stage_status := prev_stage_status inputTile,
       this_stage_status := this_stage_status inputTile,
       lat_x := lat_x inputTile, lat_y := lat_y inputTile, lat_z := lat_z inputTile,
       step_x := step_x inputTile, step_y := step_y inputTile, step_z := step_z inputTile,
       updated_at := now \<rparr>"

text \<open>
  \<open>existingTilePaths\<close>: the \<open>Map\<close> filled from the persisted rows in order, a later row
  replacing an earlier one of the same path. Its values are the row objects themselves,
  which the update loop assigns to; the map is therefore also the store of those
  objects, and the loop below passes it along.
\<close>

definition existingTilePaths :: "IPipelineTile list \<Rightarrow> (string \<rightharpoonup> IPipelineTile)" where
  "existingTilePaths knownOutput =
     foldl (\<lambda>m t. m(relative_path t \<mapsto> t)) Map.empty knownOutput"

text \<open>
  The callback of \<open>toUpdate.map\<close>, run over the candidates in order. \<open>n\<close> counts the
  clock readings taken so far. Each step yields the reference of the row it assigned
  to (its key in the store) or \<open>null\<close> (\<open>None\<close>). \<open>Map.get\<close> yields \<open>undefined\<close> for an
  absent key, which is not \<open>=== null\<close>, so the property read that follows raises.
\<close>

fun updateLoop ::
  "(nat \<Rightarrow> date) \<Rightarrow> nat \<Rightarrow> (string \<rightharpoonup> IPipelineTile) \<Rightarrow> IPipelineTileAttributes list
     \<Rightarrow> js_error + (string option list \<times> (string \<rightharpoonup> IPipelineTile))" where
  "updateLoop clock n store [] = Inr ([], store)"
| "updateLoop clock n store (inputTile # rest) =
     (case store (relative_path inputTile) of
        None \<Rightarrow> Inl TypeError
      | Some existingTile \<Rightarrow>
          if prev_stage_status existingTile \<noteq> this_stage_status inputTile
          then (case updateLoop clock (Suc n)
                       (store(relative_path inputTile \<mapsto> mergeRow (clock n) inputTile existingTile))
                       rest of
                  Inl e \<Rightarrow> Inl e
                | Inr (refs, store') \<Rightarrow> Inr (Some (relative_path inputTile) # refs, store'))
          else (case updateLoop clock n store rest of
                  Inl e \<Rightarrow> Inl e
                | Inr (refs, store') \<Rightarrow> Inr (None # refs, store')))"

text \<open>\<open>.filter(t => t !== null)\<close> on the references the callback returned.\<close>

fun nonNull :: "'a option list \<Rightarrow> 'a list" where
  "nonNull [] = []"
| "nonNull (None # rs) = nonNull rs"
| "nonNull (Some r # rs) = r # nonNull rs"

text \<open>The rows the references stand for, read from the store.\<close>

fun readRows :: "(string \<rightharpoonup> IPipelineTile) \<Rightarrow> string list \<Rightarrow> IPipelineTile list" where
  "readRows store [] = []"
| "readRows store (r # rs) =
     (case store r of None \<Rightarrow> readRows store rs | Some t \<Rightarrow> t # readRows store rs)"

text \<open>
  \<open>muxInputOutputTiles\<close>. \<open>Inr None\<close> is the bare \<open>return\<close> of the guard (no plan);
  the rows of \<open>toUpdate\<close> are read from the store when the plan is returned.
\<close>

definition muxInputOutputTiles ::
  "(nat \<Rightarrow> date) \<Rightarrow> IPipelineTileAttributes list \<Rightarrow> IPipelineTile list
     \<Rightarrow> js_error + IMuxTileLists option" where
  "muxInputOutputTiles clock knownInput knownOutput =
     (if int (length knownOutput) - int (length knownInput) > 1000 then Inr None
      else
        let toInsert0 = differenceBy DefaultPipelineIdKey DefaultPipelineIdKey
                          knownInput knownOutput;
            toUpdate0 = intersectionBy DefaultPipelineIdKey DefaultPipelineIdKey
                          knownInput knownOutput;
            toDelete0 = map relative_path
                          (differenceBy DefaultPipelineIdKey DefaultPipelineIdKey
                             knownOutput knownInput);
            inserted = map (\<lambda>(k, inputTile). insertRow (clock k) inputTile)
                          (enumerate 0 toInsert0)
        in case updateLoop clock (length toInsert0) (existingTilePaths knownOutput) toUpdate0 of
             Inl e \<Rightarrow> Inl e
           | Inr (refs, store) \<Rightarrow>
               Inr (Some \<lparr> toInsert = inserted,
                           toUpdate = readRows store (nonNull refs),
                           toReset = [],
                           toDelete = toDelete0 \<rparr>))"

text \<open>
  A specification of the update bucket without the store: the candidates in order, each
  looked up once in \<open>store\<close>, the ones whose predicate holds merged. It is compared with
  \<open>updateLoop\<close> below.
\<close>

fun mergedRows ::
  "(nat \<Rightarrow> date) \<Rightarrow> nat \<Rightarrow> (string \<rightharpoonup> IPipelineTile) \<Rightarrow> IPipelineTileAttributes list
     \<Rightarrow> IPipelineTile list" where
  "mergedRows clock n store [] = []"
| "mergedRows clock n store (inputTile # rest) =
     (case store (relative_path inputTile) of
        None \<Rightarrow> mergedRows clock n store rest
      | Some existingTile \<Rightarrow>
          if prev_stage_status existingTile \<noteq> this_stage_status inputTile
          then mergeRow (clock n) inputTile existingTile # mergedRows clock (Suc n) store rest
          else mergedRows clock n store rest)"

section \<open>The path mapper\<close>

record DriveMapping =
  remote :: string
  local :: string

definition startsWith :: "string \<Rightarrow> string \<Rightarrow> bool" where
  "startsWith s p = (take (length p) s = p)"

text \<open>
  \<open>ServiceOptions.driveMapping.map(d => ...)\<close> in \<open>performJsonUpdate\<close>: the callback runs
  for every pair in order and assigns to \<open>root\<close>, which the next pair then tests.
\<close>

definition mapRoot :: "DriveMapping list \<Rightarrow> string \<Rightarrow> string" where
  "mapRoot driveMapping root_path =
     foldl (\<lambda>root d. if startsWith root (remote d)
                       then local d @ drop (length (remote d)) root else root)
           root_path driveMapping"

section \<open>The inventory documents and their parsers\<close>

datatype IPosition = Position (pos_x: "number option") (pos_y: "number option") (pos_z: "number option")

record IJsonTile =
  tile_id :: "number option"
  relativePath :: string
  position :: "IPosition option"
  step :: "IPosition option"
  isComplete :: bool

record IDashboardTileContents =
  latticePosition :: "IPosition option"
  latticeStep :: "IPosition option"

record IDashboardJsonTile =
  dash_id :: "number option"
  dash_relativePath :: string
  contents :: IDashboardTileContents
  dash_isComplete :: bool

record Extents =
  minimumX :: number
  maximumX :: number
  minimumY :: number
  maximumY :: number
  minimumZ :: number
  maximumZ :: number

text \<open>
  The value \<open>JSON.parse\<close> returns, as far as the parsers read it: whether
  \<open>pipelineFormat\<close> is present and not null, \<open>extents\<close>, \<open>tiles\<close>, \<open>monitor\<close> (with
  its own optional \<open>extents\<close>) and the own properties of \<open>tileMap\<close> in the order
  \<open>for ... in\<close> visits them (none when \<open>tileMap\<close> is absent).
\<close>

record JsonContent =
  pipelineFormat :: bool
  extents :: "Extents option"
  tiles :: "IJsonTile list option"
  monitor :: "Extents option option"
  tileMap :: "(string \<times> IDashboardJsonTile list) list"

text \<open>\<open>tile.relativePath.replace(new RegExp("\\\\", "g"), "/")\<close>: every backslash becomes a slash.\<close>

definition normalizePath :: "string \<Rightarrow> string" where
  "normalizePath p = map (\<lambda>c. if c = CHR 0x5C then CHR ''/'' else c) p"

text \<open>
  \<open>path.basename\<close> (POSIX): trailing slashes are dropped, then the part after the last
  slash is taken; the empty string when nothing is left.
\<close>

definition basename :: "string \<Rightarrow> string" where
  "basename p =
     rev (takeWhile (\<lambda>c. c \<noteq> CHR ''/'') (dropWhile (\<lambda>c. c = CHR ''/'') (rev p)))"

definition statusOf :: "bool \<Rightarrow> TilePipelineStatus" where
  "statusOf complete = (if complete then Complete else Incomplete)"

text \<open>The record pushed for one tile of the pipeline format.\<close>

definition pipelineTile :: "IJsonTile \<Rightarrow> IPipelineTileAttributes" where
  "pipelineTile tile =
     (let normalizedPath = normalizePath (relativePath tile);
          tileName = basename normalizedPath;
          pos = (case position tile of None \<Rightarrow> Position None None None | Some p \<Rightarrow> p);
          stp = (case step tile of None \<Rightarrow> Position None None None | Some p \<Rightarrow> p)
      in \<lparr> relative_path = normalizedPath, index = tile_id tile, tile_name = tileName,
           prev_stage_status = statusOf (isComplete tile),
           this_stage_status = statusOf (isComplete tile),
           lat_x = pos_x pos, lat_y = pos_y pos, lat_z = pos_z pos,
           step_x = pos_x stp, step_y = pos_y stp, step_z = pos_z stp \<rparr>)"

text \<open>The record pushed for one tile of the dashboard format.\<close>

definition dashboardTile :: "IDashboardJsonTile \<Rightarrow> IPipelineTileAttributes" where
  "dashboardTile tile =
     (let normalizedPath = normalizePath (dash_relativePath tile);
          tileName = basename normalizedPath;
          pos = (case latticePosition (contents tile) of
                   None \<Rightarrow> Position None None None | Some p \<Rightarrow> p);
          stp = (case latticeStep (contents tile) of
                   None \<Rightarrow> Position None None None | Some p \<Rightarrow> p)
      in \<lparr> relative_path = normalizedPath, index = dash_id tile, tile_name = tileName,
           prev_stage_status = statusOf (dash_isComplete tile),
           this_stage_status = statusOf (dash_isComplete tile),
           lat_x = pos_x pos, lat_y = pos_y pos, lat_z = pos_z pos,
           step_x = pos_x stp, step_y = pos_y stp, step_z = pos_z stp \<rparr>)"

section \<open>The state the ingestor works on\<close>

text \<open>
  Modelled from the spec: the enumeration \<open>ProjectInputSourceState\<close> is declared with the
  project model, which is not among the sources; the spec lists Unknown, Pipeline,
  Dashboard, Missing, BadLocation.
\<close>

datatype ProjectInputSourceState = Unknown | Pipeline | Dashboard | Missing | BadLocation

text \<open>
  What a file holds: a document \<open>JSON.parse\<close> accepts, the tile vector
  \<open>outputJSONSync\<close> wrote, or text that \<open>JSON.parse\<close> rejects.
\<close>

datatype FileContent =
    Document JsonContent
  | TileVector "IPipelineTileAttributes list"
  | Unparsable

datatype Node = Dir | File FileContent

text \<open>
  The file system is a map from the path strings handed to \<open>fs-extra\<close> to nodes.
  \<open>input_source_state\<close> is the state passed to the last call of \<open>updateProject\<close>, \<open>sample_extents\<close> the
  six sample bounds of the project row, \<open>tile_table\<close> the persisted tile-status table of
  the project in row order.
\<close>

record World =
  fs :: "string \<rightharpoonup> Node"
  input_source_state :: ProjectInputSourceState
  sample_extents :: "Extents option"
  tile_table :: "IPipelineTile list"









definition parsePipelineDefaultInput ::
  "JsonContent \<Rightarrow> World \<Rightarrow> World \<times> (js_error + IPipelineTileAttributes list)" where
  "parsePipelineDefaultInput jsonContent w =
     (let w1 = (case extents jsonContent of
                  None \<Rightarrow> w
                | Some ext \<Rightarrow> w \<lparr> sample_extents := Some ext \<rparr>)
      in case tiles jsonContent of
           None \<Rightarrow> (w1, Inl TypeError)
         | Some ts \<Rightarrow> (w1, Inr (map pipelineTile ts)))"

definition parseDashboardInput ::
  "JsonContent \<Rightarrow> World \<Rightarrow> World \<times> (js_error + IPipelineTileAttributes list)" where
  "parseDashboardInput jsonContent w =
     (case monitor jsonContent of
        None \<Rightarrow> (w, Inl TypeError)
      | Some mext \<Rightarrow>
          let w1 = (case mext of
                      None \<Rightarrow> w
                    | Some ext \<Rightarrow> w \<lparr> sample_extents := Some ext \<rparr>)
          in (w1, Inr (concat (map (\<lambda>(prop, group). map dashboardTile group)
                                   (tileMap jsonContent)))))"







text \<open>
  Modelled from the spec: \<open>refreshWithKnownInput\<close> and the application of a plan belong
  to \<open>BasePipelineScheduler\<close>, which is not among the sources. After the spec (4.3, 4.5):
  the muxer runs against the persisted tile vector; without a plan the persisted table
  is left as it is; otherwise the plan is applied, inserts, then updates, then deletes.
\<close>

definition applyPlan :: "IMuxTileLists \<Rightarrow> IPipelineTile list \<Rightarrow> IPipelineTile list" where
  "applyPlan plan table =
     filter (\<lambda>row. relative_path row \<notin> set (toDelete plan))
       (map (\<lambda>row. case find (\<lambda>u. relative_path u = relative_path row) (toUpdate plan) of
                      None \<Rightarrow> row | Some u \<Rightarrow> u)
            (table @ toInsert plan))"



section \<open>The queue consumer\<close>

text \<open>
  What one run of \<open>acknowledgeMessage\<close> meets: the metrics write rejects, the hub call
  rejects, or the hub answers. The environment gives the outcome of each run for one
  message, numbered from 0.
\<close>

datatype Outcome = MetricsThrows | HubThrows | HubReturns bool

datatype Event = MetricsWrite | HubDispatch bool | Ack

text \<open>
  \<open>acknowledgeMessage\<close>: the events of run \<open>k\<close> and of the runs the timer starts after
  it, and whether \<open>resolve\<close> was called. \<open>fuel\<close> bounds the number of runs observed: the
  retry has no bound of its own. A rejected \<open>await\<close> ends the run without \<open>resolve\<close> and
  without a new timer.
\<close>

fun acknowledgeMessage :: "(nat \<Rightarrow> Outcome) \<Rightarrow> nat \<Rightarrow> nat \<Rightarrow> Event list \<times> bool" where
  "acknowledgeMessage env k 0 = ([], False)"
| "acknowledgeMessage env k (Suc fuel) =
     (case env k of
        MetricsThrows \<Rightarrow> ([MetricsWrite], False)
      | HubThrows \<Rightarrow> ([MetricsWrite], False)
      | HubReturns ack \<Rightarrow>
          if ack then ([MetricsWrite, HubDispatch True], True)
          else (let (evs, resolved) = acknowledgeMessage env (Suc k) fuel
                in (MetricsWrite # HubDispatch False # evs, resolved)))"

text \<open>
  The callback given to \<open>channel.consume\<close>: a payload \<open>JSON.parse\<close> rejects is logged and
  nothing else happens; otherwise \<open>handleOneMessage\<close> is awaited and
  \<open>channel.ack(msg)\<close> follows once its promise has resolved.
\<close>

definition consume :: "bool \<Rightarrow> (nat \<Rightarrow> Outcome) \<Rightarrow> nat \<Rightarrow> Event list" where
  "consume decodes env fuel =
     (if \<not> decodes then []
      else let (evs, resolved) = acknowledgeMessage env 0 fuel
           in if resolved then evs @ [Ack] else evs)"

section \<open>Concrete inputs\<close>

text \<open>A persisted row for each number, the paths pairwise different.\<close>

definition rowAt :: "nat \<Rightarrow> IPipelineTile" where
  "rowAt k = \<lparr> relative_path = replicate (Suc k) CHR ''a'', index = Some (int k),
       tile_name = replicate (Suc k) CHR ''a'',
       prev_stage_status = Incomplete, this_stage_status = Incomplete,
       lat_x = None, lat_y = None, lat_z = None,
       step_x = None, step_y = None, step_z = None,
       duration = 0, cpu_high = 0, memory_high = 0, created_at = 0, updated_at = 0 \<rparr>"

text \<open>An inventory tile and a persisted row of a given path and status.\<close>

definition invTile :: "string \<Rightarrow> bool \<Rightarrow> IPipelineTileAttributes" where
  "invTile p complete =
     \<lparr> relative_path = p, index = None, tile_name = p,
       prev_stage_status = statusOf complete, this_stage_status = statusOf complete,
       lat_x = None, lat_y = None, lat_z = None,
       step_x = None, step_y = None, step_z = None \<rparr>"

definition rowOf :: "string \<Rightarrow> TilePipelineStatus \<Rightarrow> IPipelineTile" where
  "rowOf p st =
     \<lparr> relative_path = p, index = None, tile_name = p,
       prev_stage_status = st, this_stage_status = st,
       lat_x = None, lat_y = None, lat_z = None,
       step_x = None, step_y = None, step_z = None,
       duration = 0, cpu_high = 0, memory_high = 0, created_at = 0, updated_at = 0 \<rparr>"

text \<open>A world with nothing in it, and the documents of two scenarios of the spec.\<close>

definition emptyWorld :: World where
  "emptyWorld = \<lparr> fs = Map.empty, input_source_state = Unknown, sample_extents = None,
                   tile_table = [] \<rparr>"

definition s1Document :: JsonContent where
  "s1Document =
     \<lparr> pipelineFormat = True, extents = None,
       tiles = Some [\<lparr> tile_id = Some 1, relativePath = ''a'' @ [CHR 0x5C] @ ''b.tif'',
                        position = None, step = None, isComplete = False \<rparr>,
                     \<lparr> tile_id = Some 2, relativePath = ''c/d.tif'',
                        position = None, step = None, isComplete = True \<rparr>],
       monitor = None, tileMap = [] \<rparr>"

definition s5Document :: JsonContent where
  "s5Document =
     \<lparr> pipelineFormat = False, extents = None, tiles = None,
       monitor = Some (Some \<lparr> minimumX = 0, maximumX = 10, minimumY = 0, maximumY = 20,
                               minimumZ = 0, maximumZ = 30 \<rparr>),
       tileMap = [(''1'', [\<lparr> dash_id = Some 7, dash_relativePath = ''g'' @ [CHR 0x5C] @ ''h'',
                              contents = \<lparr> latticePosition = Some (Position (Some 1) (Some 2) (Some 3)),
                                           latticeStep = None \<rparr>,
                              dash_isComplete = True \<rparr>])] \<rparr>"






text \<open>
  Two environments of the consumer: the hub refuses the first call and accepts from the
  second on; the hub refuses the first call and the metrics sink fails afterwards.
\<close>

definition refusedOnce :: "nat \<Rightarrow> Outcome" where
  "refusedOnce k = HubReturns (1 \<le> k)"

definition metricsDown :: "nat \<Rightarrow> Outcome" where
  "metricsDown k = (if k = 0 then HubReturns False else MetricsThrows)"

section \<open>Facts about the helpers\<close>

subsection \<open>Difference and intersection by key\<close>

lemma differenceBy_distinct:
  "distinct (map f xs) \<Longrightarrow> distinct (map f (differenceBy f g xs ys))"
  by (simp add: differenceBy_def distinct_map_filter)

lemma baseIntersection_mem:
  "x \<in> set (baseIntersection f others seen xs) \<Longrightarrow>
     x \<in> set xs \<and> f x \<in> set others \<and> f x \<notin> set seen"
proof (induction xs arbitrary: seen)
  case Nil
  then show ?case by simp
next
  case (Cons v vs)
  show ?case
  proof (cases "f v \<notin> set seen \<and> f v \<in> set others")
    case True
    with Cons.prems have "x = v \<or> x \<in> set (baseIntersection f others (f v # seen) vs)"
      by simp
    then show ?thesis using True Cons.IH [of "f v # seen"] by auto
  next
    case False
    with Cons.prems have "x \<in> set (baseIntersection f others seen vs)" by auto
    then show ?thesis using Cons.IH [of seen] by auto
  qed
qed

lemma baseIntersection_keys:
  "f ` set (baseIntersection f others seen xs) = (f ` set xs \<inter> set others) - set seen"
proof (induction xs arbitrary: seen)
  case Nil
  show ?case by simp
next
  case (Cons v vs)
  show ?case
  proof (cases "f v \<notin> set seen \<and> f v \<in> set others")
    case True
    then show ?thesis using Cons.IH [of "f v # seen"] by auto
  next
    case False
    then show ?thesis using Cons.IH [of seen] by auto
  qed
qed

lemma baseIntersection_distinct:
  "distinct (map f (baseIntersection f others seen xs))"
proof (induction xs arbitrary: seen)
  case Nil
  show ?case by simp
next
  case (Cons v vs)
  show ?case
  proof (cases "f v \<notin> set seen \<and> f v \<in> set others")
    case True
    have "f v \<notin> f ` set (baseIntersection f others (f v # seen) vs)"
      by (simp add: baseIntersection_keys)
    with True Cons.IH [of "f v # seen"] show ?thesis by simp
  next
    case False
    then show ?thesis using Cons.IH [of seen] by auto
  qed
qed

lemma baseIntersection_first:
  "x \<in> set (baseIntersection f others seen xs) \<Longrightarrow> find (\<lambda>y. f y = f x) xs = Some x"
proof (induction xs arbitrary: seen)
  case Nil
  then show ?case by simp
next
  case (Cons v vs)
  show ?case
  proof (cases "f v \<notin> set seen \<and> f v \<in> set others")
    case True
    show ?thesis
    proof (cases "x = v")
      case True
      then show ?thesis by simp
    next
      case False
      with True Cons.prems have mem: "x \<in> set (baseIntersection f others (f v # seen) vs)"
        by simp
      then have "f x \<noteq> f v" using baseIntersection_mem [OF mem] by auto
      with Cons.IH [OF mem] show ?thesis by simp
    qed
  next
    case False
    with Cons.prems have mem: "x \<in> set (baseIntersection f others seen vs)" by auto
    have "f x \<noteq> f v" using baseIntersection_mem [OF mem] False by auto
    with Cons.IH [OF mem] show ?thesis by simp
  qed
qed

lemma baseIntersection_has_first:
  "find (\<lambda>y. f y = k) xs = Some x \<Longrightarrow> k \<in> set others \<Longrightarrow> k \<notin> set seen \<Longrightarrow>
     x \<in> set (baseIntersection f others seen xs)"
proof (induction xs arbitrary: seen)
  case Nil
  then show ?case by simp
next
  case (Cons v vs)
  show ?case
  proof (cases "f v = k")
    case True
    with Cons.prems show ?thesis by simp
  next
    case False
    with Cons.prems have fnd: "find (\<lambda>y. f y = k) vs = Some x" by simp
    show ?thesis
    proof (cases "f v \<notin> set seen \<and> f v \<in> set others")
      case True
      have "k \<notin> set (f v # seen)" using False Cons.prems by auto
      from Cons.IH [OF fnd Cons.prems(2) this] True show ?thesis by simp
    next
      case no: False
      from Cons.IH [OF fnd Cons.prems(2) Cons.prems(3)] no show ?thesis by auto
    qed
  qed
qed

lemma find_SomeD: "find P xs = Some x \<Longrightarrow> x \<in> set xs \<and> P x"
  by (induction xs) (auto split: if_splits)

lemma foldl_upd_find:
  "foldl (\<lambda>m t. m(f t \<mapsto> t)) m0 ts p =
     (case find (\<lambda>t. f t = p) (rev ts) of None \<Rightarrow> m0 p | Some t \<Rightarrow> Some t)"
proof (induction ts rule: rev_induct)
  case Nil
  show ?case by simp
next
  case (snoc t ts)
  then show ?case by simp
qed

lemma existingTilePaths_find:
  "existingTilePaths knownOutput p = find (\<lambda>t. relative_path t = p) (rev knownOutput)"
  by (simp add: existingTilePaths_def foldl_upd_find split: option.splits)

lemma existingTilePaths_dom:
  "dom (existingTilePaths knownOutput) = relative_path ` set knownOutput"
  by (auto simp: existingTilePaths_find dom_def find_None_iff image_iff)

lemma existingTilePaths_Some:
  "existingTilePaths knownOutput p = Some e \<Longrightarrow> relative_path e = p \<and> e \<in> set knownOutput"
  using find_SomeD [of "\<lambda>t. relative_path t = p" "rev knownOutput" e]
  by (simp add: existingTilePaths_find)

subsection \<open>The update loop and its store\<close>

lemma updateLoop_frame:
  "updateLoop clock n store cands = Inr (refs, store') \<Longrightarrow>
     k \<notin> relative_path ` set cands \<Longrightarrow> store' k = store k"
proof (induction cands arbitrary: n store refs store')
  case Nil
  then show ?case by simp
next
  case (Cons i rest)
  from Cons.prems(1) obtain e where e: "store (relative_path i) = Some e"
    by (auto split: option.splits)
  from Cons.prems(2) have k: "k \<noteq> relative_path i" "k \<notin> relative_path ` set rest" by auto
  show ?case
  proof (cases "prev_stage_status e \<noteq> this_stage_status i")
    case True
    with Cons.prems(1) e obtain refs' where
      "updateLoop clock (Suc n) (store(relative_path i \<mapsto> mergeRow (clock n) i e)) rest
         = Inr (refs', store')"
      by (auto split: sum.splits)
    from Cons.IH [OF this k(2)] k(1) show ?thesis by simp
  next
    case False
    with Cons.prems(1) e obtain refs' where
      "updateLoop clock n store rest = Inr (refs', store')"
      by (auto split: sum.splits)
    from Cons.IH [OF this k(2)] show ?thesis .
  qed
qed

lemma updateLoop_ok:
  "\<forall>i \<in> set cands. relative_path i \<in> dom store \<Longrightarrow>
     \<exists>refs store'. updateLoop clock n store cands = Inr (refs, store')"
proof (induction cands arbitrary: n store)
  case Nil
  show ?case by simp
next
  case (Cons i rest)
  then obtain e where e: "store (relative_path i) = Some e" by auto
  show ?case
  proof (cases "prev_stage_status e \<noteq> this_stage_status i")
    case True
    let ?s = "store(relative_path i \<mapsto> mergeRow (clock n) i e)"
    have "\<forall>j \<in> set rest. relative_path j \<in> dom ?s" using Cons.prems by auto
    from Cons.IH [OF this, of "Suc n"] obtain refs store' where
      "updateLoop clock (Suc n) ?s rest = Inr (refs, store')" by blast
    with e True show ?thesis by simp
  next
    case False
    have "\<forall>j \<in> set rest. relative_path j \<in> dom store" using Cons.prems by auto
    from Cons.IH [OF this, of n] obtain refs store' where
      "updateLoop clock n store rest = Inr (refs, store')" by blast
    with e False show ?thesis by simp
  qed
qed

lemma mergedRows_cong:
  "\<forall>i \<in> set cands. s1 (relative_path i) = s2 (relative_path i) \<Longrightarrow>
     mergedRows clock n s1 cands = mergedRows clock n s2 cands"
  by (induction cands arbitrary: n) (auto split: option.splits)

lemma updateLoop_rows:
  "distinct (map relative_path cands) \<Longrightarrow>
   updateLoop clock n store cands = Inr (refs, store') \<Longrightarrow>
     readRows store' (nonNull refs) = mergedRows clock n store cands"
proof (induction cands arbitrary: n store refs)
  case Nil
  then show ?case by simp
next
  case (Cons i rest)
  from Cons.prems(2) obtain e where e: "store (relative_path i) = Some e"
    by (auto split: option.splits)
  from Cons.prems(1) have d: "relative_path i \<notin> relative_path ` set rest"
    "distinct (map relative_path rest)" by auto
  show ?case
  proof (cases "prev_stage_status e \<noteq> this_stage_status i")
    case True
    let ?m = "mergeRow (clock n) i e"
    let ?s = "store(relative_path i \<mapsto> ?m)"
    from Cons.prems(2) e True obtain refs' where
      run: "updateLoop clock (Suc n) ?s rest = Inr (refs', store')"
      and refs: "refs = Some (relative_path i) # refs'"
      by (auto split: sum.splits)
    have at: "store' (relative_path i) = Some ?m"
      using updateLoop_frame [OF run d(1)] by simp
    have ne: "\<forall>j \<in> set rest. relative_path j \<noteq> relative_path i"
      using d(1) by (metis imageI)
    have eq: "mergedRows clock (Suc n) ?s rest = mergedRows clock (Suc n) store rest"
      by (rule mergedRows_cong) (simp add: ne)
    have "readRows store' (nonNull refs') = mergedRows clock (Suc n) store rest"
      using Cons.IH [OF d(2) run] by (simp only: eq)
    with at refs e True show ?thesis
      by simp
  next
    case False
    from Cons.prems(2) e False obtain refs' where
      run: "updateLoop clock n store rest = Inr (refs', store')"
      and refs: "refs = None # refs'"
      by (auto split: sum.splits)
    with Cons.IH [OF d(2) run] e False show ?thesis
      by simp
  qed
qed

lemma mergedRows_mem:
  "r \<in> set (mergedRows clock n store cands) \<Longrightarrow>
     \<exists>i e k. i \<in> set cands \<and> store (relative_path i) = Some e
        \<and> prev_stage_status e \<noteq> this_stage_status i \<and> r = mergeRow (clock k) i e
        \<and> n \<le> k \<and> k < n + length (mergedRows clock n store cands)"
proof (induction cands arbitrary: n)
  case Nil
  then show ?case by simp
next
  case (Cons i rest)
  show ?case
  proof (cases "\<exists>e. store (relative_path i) = Some e
                  \<and> prev_stage_status e \<noteq> this_stage_status i")
    case True
    then obtain e where e: "store (relative_path i) = Some e"
      "prev_stage_status e \<noteq> this_stage_status i" by blast
    with Cons.prems have "r = mergeRow (clock n) i e \<or> r \<in> set (mergedRows clock (Suc n) store rest)"
      by simp
    then show ?thesis
    proof
      assume "r = mergeRow (clock n) i e"
      with e show ?thesis by fastforce
    next
      assume "r \<in> set (mergedRows clock (Suc n) store rest)"
      from Cons.IH [OF this] obtain j e' k where
        "j \<in> set rest" "store (relative_path j) = Some e'"
        "prev_stage_status e' \<noteq> this_stage_status j" "r = mergeRow (clock k) j e'"
        "Suc n \<le> k" "k < Suc n + length (mergedRows clock (Suc n) store rest)" by blast
      with e show ?thesis
        by (intro exI [of _ j] exI [of _ e'] exI [of _ k]) simp
    qed
  next
    case False
    then have same: "mergedRows clock n store (i # rest) = mergedRows clock n store rest"
      by (auto split: option.splits)
    with Cons.prems have "r \<in> set (mergedRows clock n store rest)" by simp
    from Cons.IH [OF this] obtain j e' k where
      "j \<in> set rest" "store (relative_path j) = Some e'"
      "prev_stage_status e' \<noteq> this_stage_status j" "r = mergeRow (clock k) j e'"
      "n \<le> k" "k < n + length (mergedRows clock n store rest)" by blast
    then show ?thesis unfolding same
      by (intro exI [of _ j] exI [of _ e'] exI [of _ k]) simp
  qed
qed

lemma mergedRows_has:
  "i \<in> set cands \<Longrightarrow>
   store (relative_path i) = Some e \<Longrightarrow>
   prev_stage_status e \<noteq> this_stage_status i \<Longrightarrow>
     \<exists>k. mergeRow (clock k) i e \<in> set (mergedRows clock n store cands)"
proof (induction cands arbitrary: n)
  case Nil
  then show ?case by simp
next
  case (Cons c rest)
  show ?case
  proof (cases "i = c")
    case True
    with Cons.prems show ?thesis by (intro exI [of _ n]) simp
  next
    case False
    with Cons.prems have "i \<in> set rest" by auto
    from Cons.IH [OF this Cons.prems(2,3)]
    have "\<exists>k. mergeRow (clock k) i e \<in> set (mergedRows clock (Suc n) store rest)"
         "\<exists>k. mergeRow (clock k) i e \<in> set (mergedRows clock n store rest)" by blast+
    then show ?thesis by (auto split: option.splits)
  qed
qed

lemma mergeRow_path: "relative_path (mergeRow now i e) = relative_path e"
  by (simp add: mergeRow_def)

lemma mergedRows_paths:
  "\<forall>p e. store p = Some e \<longrightarrow> relative_path e = p \<Longrightarrow>
     map relative_path (mergedRows clock n store cands) =
     map relative_path (filter (\<lambda>i. \<exists>e. store (relative_path i) = Some e
                                   \<and> prev_stage_status e \<noteq> this_stage_status i) cands)"
  by (induction cands arbitrary: n) (auto simp: mergeRow_path split: option.splits)

subsection \<open>The plan of the muxer\<close>

lemma intersectionBy_in_store:
  "i \<in> set (intersectionBy relative_path relative_path knownInput knownOutput) \<Longrightarrow>
     relative_path i \<in> dom (existingTilePaths knownOutput)"
  using baseIntersection_mem [of i relative_path "map relative_path knownOutput" "[]" knownInput]
  by (simp add: intersectionBy_def existingTilePaths_dom)

lemma insertRow_paths:
  "map (relative_path \<circ> (\<lambda>(k, inputTile). insertRow (clock k) inputTile)) (enumerate n xs)
     = map relative_path xs"
  by (induction xs arbitrary: n) (simp_all add: insertRow_def)

lemma mux_guarded:
  "1000 < int (length knownOutput) - int (length knownInput) \<Longrightarrow>
     muxInputOutputTiles clock knownInput knownOutput = Inr None"
  by (simp add: muxInputOutputTiles_def DefaultPipelineIdKey_def)

lemma mux_plan:
  assumes "\<not> 1000 < int (length knownOutput) - int (length knownInput)"
  shows "muxInputOutputTiles clock knownInput knownOutput =
     Inr (Some \<lparr> toInsert = map (\<lambda>(k, inputTile). insertRow (clock k) inputTile)
                    (enumerate 0 (differenceBy relative_path relative_path knownInput knownOutput)),
                 toUpdate = mergedRows clock
                    (length (differenceBy relative_path relative_path knownInput knownOutput))
                    (existingTilePaths knownOutput)
                    (intersectionBy relative_path relative_path knownInput knownOutput),
                 toReset = [],
                 toDelete = map relative_path
                    (differenceBy relative_path relative_path knownOutput knownInput) \<rparr>)"
proof -
  let ?cands = "intersectionBy relative_path relative_path knownInput knownOutput"
  let ?n = "length (differenceBy relative_path relative_path knownInput knownOutput)"
  have "\<forall>i \<in> set ?cands. relative_path i \<in> dom (existingTilePaths knownOutput)"
    using intersectionBy_in_store by blast
  from updateLoop_ok [OF this, of clock ?n] obtain refs store' where
    run: "updateLoop clock ?n (existingTilePaths knownOutput) ?cands = Inr (refs, store')"
    by blast
  have "distinct (map relative_path ?cands)"
    by (simp add: intersectionBy_def baseIntersection_distinct)
  from updateLoop_rows [OF this run]
  have "readRows store' (nonNull refs) =
          mergedRows clock ?n (existingTilePaths knownOutput) ?cands" .
  with run assms show ?thesis
    by (simp add: muxInputOutputTiles_def DefaultPipelineIdKey_def Let_def)
qed

lemma mux_plan_inv:
  assumes "muxInputOutputTiles clock knownInput knownOutput = Inr (Some plan)"
  shows "toInsert plan = map (\<lambda>(k, inputTile). insertRow (clock k) inputTile)
                    (enumerate 0 (differenceBy relative_path relative_path knownInput knownOutput))"
    and "toUpdate plan = mergedRows clock
                    (length (differenceBy relative_path relative_path knownInput knownOutput))
                    (existingTilePaths knownOutput)
                    (intersectionBy relative_path relative_path knownInput knownOutput)"
    and "toReset plan = []"
    and "toDelete plan = map relative_path
                    (differenceBy relative_path relative_path knownOutput knownInput)"
proof -
  have ng: "\<not> 1000 < int (length knownOutput) - int (length knownInput)"
    using assms mux_guarded [of knownOutput knownInput clock] by auto
  from mux_plan [OF ng, of clock] assms
  show "toInsert plan = map (\<lambda>(k, inputTile). insertRow (clock k) inputTile)
                    (enumerate 0 (differenceBy relative_path relative_path knownInput knownOutput))"
    and "toUpdate plan = mergedRows clock
                    (length (differenceBy relative_path relative_path knownInput knownOutput))
                    (existingTilePaths knownOutput)
                    (intersectionBy relative_path relative_path knownInput knownOutput)"
    and "toReset plan = []"
    and "toDelete plan = map relative_path
                    (differenceBy relative_path relative_path knownOutput knownInput)"
    by auto
qed

lemma differenceBy_keys:
  "f ` set (differenceBy f g xs ys) = f ` set xs - g ` set ys"
  by (auto simp: differenceBy_def)

lemma mergeRow_fields:
  "r = mergeRow now i e \<Longrightarrow>
     relative_path r = relative_path e \<and> tile_name r = tile_name i \<and> index r = index i
     \<and> prev_stage_status r = prev_stage_status i \<and> this_stage_status r = this_stage_status i
     \<and> lat_x r = lat_x i \<and> lat_y r = lat_y i \<and> lat_z r = lat_z i
     \<and> step_x r = step_x i \<and> step_y r = step_y i \<and> step_z r = step_z i
     \<and> updated_at r = now \<and> created_at r = created_at e
     \<and> duration r = duration e \<and> cpu_high r = cpu_high e \<and> memory_high r = memory_high e"
  by (simp add: mergeRow_def)

subsection \<open>The buckets written out\<close>

lemma baseIntersection_explicit:
  "baseIntersection f others seen xs =
     map snd (filter (\<lambda>(j, v). f v \<in> set others \<and> f v \<notin> set seen
                               \<and> f v \<notin> f ` set (take j xs))
                     (enumerate 0 xs))"
proof (induction xs arbitrary: seen)
  case Nil
  show ?case by simp
next
  case (Cons v vs)
  have shift: "map snd (filter (\<lambda>(j, w). f w \<in> set others \<and> f w \<notin> set seen
                               \<and> f w \<notin> f ` set (take j (v # vs)))
                     (enumerate (Suc 0) vs))
      = map snd (filter (\<lambda>(j, w). f w \<in> set others \<and> f w \<notin> set seen \<and> f w \<noteq> f v
                               \<and> f w \<notin> f ` set (take j vs))
                     (enumerate 0 vs))"
    by (simp add: enumerate_Suc_eq [of 0] filter_map comp_def case_prod_unfold)
  show ?case
  proof (cases "f v \<notin> set seen \<and> f v \<in> set others")
    case True
    have same: "filter (\<lambda>(j, w). f w \<in> set others \<and> f w \<notin> set seen \<and> f w \<noteq> f v
                               \<and> f w \<notin> f ` set (take j vs)) (enumerate 0 vs)
       = filter (\<lambda>(j, w). f w \<in> set others \<and> f w \<notin> set (f v # seen)
                               \<and> f w \<notin> f ` set (take j vs)) (enumerate 0 vs)"
      by (rule filter_cong) auto
    have lhs: "baseIntersection f others seen (v # vs)
                 = v # baseIntersection f others (f v # seen) vs"
      using True by simp
    have rhs: "map snd (filter (\<lambda>(j, w). f w \<in> set others \<and> f w \<notin> set seen
                               \<and> f w \<notin> f ` set (take j (v # vs)))
                     (enumerate 0 (v # vs)))
       = v # map snd (filter (\<lambda>(j, w). f w \<in> set others \<and> f w \<notin> set seen
                               \<and> f w \<notin> f ` set (take j (v # vs)))
                     (enumerate (Suc 0) vs))"
      using True by simp
    show ?thesis unfolding lhs rhs shift same Cons.IH [of "f v # seen"] ..
  next
    case False
    have same: "filter (\<lambda>(j, w). f w \<in> set others \<and> f w \<notin> set seen \<and> f w \<noteq> f v
                               \<and> f w \<notin> f ` set (take j vs)) (enumerate 0 vs)
       = filter (\<lambda>(j, w). f w \<in> set others \<and> f w \<notin> set seen
                               \<and> f w \<notin> f ` set (take j vs)) (enumerate 0 vs)"
      using False by (intro filter_cong) auto
    have lhs: "baseIntersection f others seen (v # vs) = baseIntersection f others seen vs"
      using False by auto
    have rhs: "map snd (filter (\<lambda>(j, w). f w \<in> set others \<and> f w \<notin> set seen
                               \<and> f w \<notin> f ` set (take j (v # vs)))
                     (enumerate 0 (v # vs)))
       = map snd (filter (\<lambda>(j, w). f w \<in> set others \<and> f w \<notin> set seen
                               \<and> f w \<notin> f ` set (take j (v # vs)))
                     (enumerate (Suc 0) vs))"
      using False by auto
    show ?thesis unfolding lhs rhs shift same Cons.IH [of seen] ..
  qed
qed

lemma intersectionBy_explicit:
  "intersectionBy f g xs ys =
     filter (\<lambda>v. f v \<in> g ` set ys)
       (map snd (filter (\<lambda>(j, v). f v \<notin> f ` set (take j xs)) (enumerate 0 xs)))"
  by (simp add: intersectionBy_def baseIntersection_explicit filter_map comp_def
        case_prod_unfold conj_commute)

lemma mergedRows_explicit:
  "mergedRows clock n store cands =
     map (\<lambda>(k, i). mergeRow (clock k) i (the (store (relative_path i))))
       (enumerate n (filter (\<lambda>i. \<exists>e. store (relative_path i) = Some e
                                   \<and> prev_stage_status e \<noteq> this_stage_status i) cands))"
  by (induction cands arbitrary: n) (auto split: option.splits)


lemma existingTilePaths_eq:
  "existingTilePaths knownOutput = (\<lambda>p. find (\<lambda>row. relative_path row = p) (rev knownOutput))"
  by (rule ext) (simp add: existingTilePaths_find)

lemma changed_candidates:
  "filter (\<lambda>i. \<exists>row. find (\<lambda>row. relative_path row = relative_path i) (rev knownOutput) = Some row
                    \<and> prev_stage_status row \<noteq> this_stage_status i)
     (intersectionBy relative_path relative_path knownInput knownOutput)
   = filter (\<lambda>i. \<exists>row. find (\<lambda>row. relative_path row = relative_path i) (rev knownOutput) = Some row
                    \<and> prev_stage_status row \<noteq> this_stage_status i)
       (map snd (filter (\<lambda>(j, i). relative_path i \<notin> relative_path ` set (take j knownInput))
                        (enumerate 0 knownInput)))"
proof -
  have inO: "relative_path i \<in> relative_path ` set knownOutput"
    if "find (\<lambda>row. relative_path row = relative_path i) (rev knownOutput) = Some row"
    for i and row
    using find_SomeD [OF that] by (metis imageI set_rev)
  show ?thesis
    unfolding intersectionBy_explicit filter_filter
    by (rule filter_cong) (auto dest: inO)
qed

subsection \<open>Paths of the buckets and of the table after a plan\<close>

lemma mergedRows_distinct:
  assumes "\<forall>p e. store p = Some e \<longrightarrow> relative_path e = p"
      and "distinct (map relative_path cands)"
  shows "distinct (map relative_path (mergedRows clock n store cands))"
  unfolding mergedRows_paths [OF assms(1)] using assms(2) by (rule distinct_map_filter)

lemma updated_row_path:
  "relative_path (case find (\<lambda>u. relative_path u = relative_path row) ups of
                    None \<Rightarrow> row | Some u \<Rightarrow> u) = relative_path row"
proof (cases "find (\<lambda>u. relative_path u = relative_path row) ups")
  case None
  then show ?thesis by simp
next
  case (Some u)
  from find_SomeD [OF this] Some show ?thesis by simp
qed

lemma applyPlan_paths:
  "map relative_path (applyPlan plan table) =
     filter (\<lambda>p. p \<notin> set (toDelete plan)) (map relative_path (table @ toInsert plan))"
  by (simp add: applyPlan_def filter_map comp_def updated_row_path)

subsection \<open>The path mapper and the parsers\<close>

lemma mapRoot_Nil: "mapRoot [] root = root"
  by (simp add: mapRoot_def)

lemma mapRoot_Cons:
  "mapRoot (d # ds) root =
     mapRoot ds (if startsWith root (remote d)
                 then local d @ drop (length (remote d)) root else root)"
  by (simp add: mapRoot_def)

lemma mapRoot_append: "mapRoot (ds @ es) root = mapRoot es (mapRoot ds root)"
  by (simp add: mapRoot_def)

lemma mapRoot_no_match:
  "\<forall>d \<in> set ds. \<not> startsWith root (remote d) \<Longrightarrow> mapRoot ds root = root"
  by (induction ds) (simp_all add: mapRoot_Nil mapRoot_Cons)

lemma normalizePath_no_backslash: "CHR 0x5C \<notin> set (normalizePath p)"
  by (auto simp: normalizePath_def)

lemma pipelineTile_path: "relative_path (pipelineTile t) = normalizePath (relativePath t)"
  by (simp add: pipelineTile_def Let_def)

lemma dashboardTile_path: "relative_path (dashboardTile t) = normalizePath (dash_relativePath t)"
  by (simp add: dashboardTile_def Let_def)

subsection \<open>The JSON update\<close>














subsection \<open>The retry loop of the consumer\<close>

lemma acknowledgeMessage_no_ack:
  "acknowledgeMessage env k fuel = (evs, resolved) \<Longrightarrow> Ack \<notin> set evs"
proof (induction fuel arbitrary: k evs resolved)
  case 0
  then show ?case by simp
next
  case (Suc fuel)
  show ?case
  proof (cases "env k")
    case MetricsThrows
    with Suc.prems show ?thesis by auto
  next
    case HubThrows
    with Suc.prems show ?thesis by auto
  next
    case (HubReturns ack)
    show ?thesis
    proof (cases ack)
      case True
      with HubReturns Suc.prems show ?thesis by auto
    next
      case False
      obtain evs' r' where rec: "acknowledgeMessage env (Suc k) fuel = (evs', r')"
        by (cases "acknowledgeMessage env (Suc k) fuel")
      with HubReturns False Suc.prems have "evs = MetricsWrite # HubDispatch False # evs'"
        by simp
      with Suc.IH [OF rec] show ?thesis by simp
    qed
  qed
qed

lemma acknowledgeMessage_resolved:
  "acknowledgeMessage env k fuel = (evs, True) \<Longrightarrow>
     \<exists>n. n < fuel \<and> env (k + n) = HubReturns True \<and> (\<forall>j<n. env (k + j) = HubReturns False)
        \<and> evs = concat (replicate n [MetricsWrite, HubDispatch False])
                  @ [MetricsWrite, HubDispatch True]"
proof (induction fuel arbitrary: k evs)
  case 0
  then show ?case by simp
next
  case (Suc fuel)
  show ?case
  proof (cases "env k")
    case MetricsThrows
    with Suc.prems show ?thesis by simp
  next
    case HubThrows
    with Suc.prems show ?thesis by simp
  next
    case (HubReturns ack)
    show ?thesis
    proof (cases ack)
      case True
      with HubReturns Suc.prems have "evs = [MetricsWrite, HubDispatch True]" by simp
      with HubReturns True show ?thesis by (intro exI [of _ 0]) simp
    next
      case False
      obtain evs' r' where rec: "acknowledgeMessage env (Suc k) fuel = (evs', r')"
        by (cases "acknowledgeMessage env (Suc k) fuel")
      with HubReturns False Suc.prems
      have evs: "evs = MetricsWrite # HubDispatch False # evs'" and r': "r' = True"
        by simp_all
      from Suc.IH [of "Suc k" evs'] rec r' obtain n where
        n: "n < fuel" "env (Suc k + n) = HubReturns True"
           "\<forall>j<n. env (Suc k + j) = HubReturns False"
           "evs' = concat (replicate n [MetricsWrite, HubDispatch False])
                  @ [MetricsWrite, HubDispatch True]" by blast
      have "\<forall>j<Suc n. env (k + j) = HubReturns False"
      proof (intro allI impI)
        fix j assume "j < Suc n"
        show "env (k + j) = HubReturns False"
        proof (cases j)
          case 0
          with HubReturns False show ?thesis by simp
        next
          case (Suc i)
          with \<open>j < Suc n\<close> n(3) show ?thesis by simp
        qed
      qed
      with n evs show ?thesis by (intro exI [of _ "Suc n"]) simp
    qed
  qed
qed

lemma acknowledgeMessage_retries:
  "env (k + n) = HubReturns True \<Longrightarrow> \<forall>j<n. env (k + j) = HubReturns False \<Longrightarrow> n < fuel \<Longrightarrow>
     acknowledgeMessage env k fuel
       = (concat (replicate n [MetricsWrite, HubDispatch False])
            @ [MetricsWrite, HubDispatch True], True)"
proof (induction n arbitrary: k fuel)
  case 0
  then obtain f where "fuel = Suc f" by (cases fuel) auto
  with 0 show ?case by simp
next
  case (Suc n)
  then obtain f where f: "fuel = Suc f" "n < f" by (cases fuel) auto
  from Suc.prems(2) have k: "env k = HubReturns False" by (metis add.right_neutral zero_less_Suc)
  have "env (Suc k + n) = HubReturns True" using Suc.prems(1) by simp
  moreover have "\<forall>j<n. env (Suc k + j) = HubReturns False"
  proof (intro allI impI)
    fix j assume "j < n"
    then have "Suc j < Suc n" by simp
    with Suc.prems(2) have "env (k + Suc j) = HubReturns False" by blast
    then show "env (Suc k + j) = HubReturns False" by simp
  qed
  ultimately have "acknowledgeMessage env (Suc k) f
       = (concat (replicate n [MetricsWrite, HubDispatch False])
            @ [MetricsWrite, HubDispatch True], True)"
    using f(2) by (rule Suc.IH)
  with k f show ?case by simp
qed

lemma count_retries:
  "count_list (concat (replicate n [MetricsWrite, HubDispatch False]) @ [MetricsWrite, HubDispatch True, Ack]) MetricsWrite = Suc n"
  "count_list (concat (replicate n [MetricsWrite, HubDispatch False]) @ [MetricsWrite, HubDispatch True, Ack]) (HubDispatch True) = 1"
  "count_list (concat (replicate n [MetricsWrite, HubDispatch False]) @ [MetricsWrite, HubDispatch True, Ack]) Ack = 1"
  by (induction n) simp_all

section \<open>The claims\<close>

text \<open>
  C2. The muxer returns no plan exactly when the persisted vector is more than 1000 tiles
  longer than the parsed one: at a difference of 1001 there is no plan, and at 1000 or
  below (negative differences included) the full plan is produced:
  \<^item> the insert bucket holds, in inventory order, a fresh row for every inventory tile
    whose path is not persisted, with zero counters and both time stamps set to the
    clock reading of its turn;
  \<^item> the update bucket holds, in inventory order, the merged row for the first inventory
    tile of each path whose last persisted row has a \<open>prev_stage_status\<close> different from
    the tile's \<open>this_stage_status\<close>, with \<open>updated_at\<close> set to the next clock reading;
  \<^item> the delete bucket holds, in table order, the persisted paths missing from the
    inventory;
  \<^item> the reset bucket is empty.
\<close>

theorem mux_guard_threshold:
  "(muxInputOutputTiles clock knownInput knownOutput = Inr None)
      = (1000 < int (length knownOutput) - int (length knownInput))
   \<and> (int (length knownOutput) - int (length knownInput) \<le> 1000 \<longrightarrow>
        (let fresh = filter (\<lambda>i. relative_path i \<notin> relative_path ` set knownOutput) knownInput;
             firsts = map snd (filter (\<lambda>(j, i). relative_path i
                                          \<notin> relative_path ` set (take j knownInput))
                                 (enumerate 0 knownInput));
             lastRow = (\<lambda>p. find (\<lambda>row. relative_path row = p) (rev knownOutput));
             changed = filter (\<lambda>i. \<exists>row. lastRow (relative_path i) = Some row
                                  \<and> prev_stage_status row \<noteq> this_stage_status i) firsts
         in \<exists>plan. muxInputOutputTiles clock knownInput knownOutput = Inr (Some plan)
           \<and> toInsert plan
               = map (\<lambda>(k, i).
                   \<lparr> relative_path = relative_path i, index = index i, tile_name = tile_name i,
                     prev_stage_status = prev_stage_status i,
                     this_stage_status = this_stage_status i,
                     lat_x = lat_x i, lat_y = lat_y i, lat_z = lat_z i,
                     step_x = step_x i, step_y = step_y i, step_z = step_z i,
                     duration = 0, cpu_high = 0, memory_high = 0,
                     created_at = clock k, updated_at = clock k \<rparr>)
                   (enumerate 0 fresh)
           \<and> toUpdate plan
               = map (\<lambda>(k, i).
                   (the (lastRow (relative_path i)))
                     \<lparr> tile_name := tile_name i, index := index i,
                       prev_stage_status := prev_stage_status i,
                       this_stage_status := this_stage_status i,
                       lat_x := lat_x i, lat_y := lat_y i, lat_z := lat_z i,
                       step_x := step_x i, step_y := step_y i, step_z := step_z i,
                       updated_at := clock k \<rparr>)
                   (enumerate (length fresh) changed)
           \<and> toDelete plan
               = filter (\<lambda>p. p \<notin> relative_path ` set knownInput) (map relative_path knownOutput)
           \<and> toReset plan = []
           \<and> map relative_path (toInsert plan)
               = filter (\<lambda>p. p \<notin> relative_path ` set knownOutput) (map relative_path knownInput)
           \<and> relative_path ` set (toUpdate plan)
               \<subseteq> relative_path ` set knownInput \<inter> relative_path ` set knownOutput))"
proof (cases "1000 < int (length knownOutput) - int (length knownInput)")
  case True
  then show ?thesis by (simp add: mux_guarded)
next
  case False
  let ?cands = "intersectionBy relative_path relative_path knownInput knownOutput"
  let ?fresh = "filter (\<lambda>i. relative_path i \<notin> relative_path ` set knownOutput) knownInput"
  let ?n = "length (differenceBy relative_path relative_path knownInput knownOutput)"
  let ?st = "existingTilePaths knownOutput"
  let ?changed = "filter (\<lambda>i. \<exists>row. find (\<lambda>row. relative_path row = relative_path i) (rev knownOutput) = Some row
                    \<and> prev_stage_status row \<noteq> this_stage_status i)
       (map snd (filter (\<lambda>(j, i). relative_path i \<notin> relative_path ` set (take j knownInput))
                        (enumerate 0 knownInput)))"
  have fresh: "differenceBy relative_path relative_path knownInput knownOutput = ?fresh"
    by (simp add: differenceBy_def)
  have ins: "map relative_path (differenceBy relative_path relative_path knownInput knownOutput)
     = filter (\<lambda>p. p \<notin> relative_path ` set knownOutput) (map relative_path knownInput)"
    by (simp add: differenceBy_def filter_map comp_def)
  have del: "map relative_path (differenceBy relative_path relative_path knownOutput knownInput)
     = filter (\<lambda>p. p \<notin> relative_path ` set knownInput) (map relative_path knownOutput)"
    by (simp add: differenceBy_def filter_map comp_def)
  have upd: "relative_path ` set (mergedRows clock ?n ?st ?cands)
               \<subseteq> relative_path ` set knownInput \<inter> relative_path ` set knownOutput"
  proof
    fix p assume "p \<in> relative_path ` set (mergedRows clock ?n ?st ?cands)"
    then obtain r where r: "r \<in> set (mergedRows clock ?n ?st ?cands)" "p = relative_path r"
      by blast
    from mergedRows_mem [OF r(1)] obtain i e k where
      ie: "i \<in> set ?cands" "?st (relative_path i) = Some e" "r = mergeRow (clock k) i e"
      by blast
    from existingTilePaths_Some [OF ie(2)] have e: "relative_path e = relative_path i"
      "e \<in> set knownOutput" by simp_all
    have p: "p = relative_path i" using r(2) ie(3) e(1) by (simp add: mergeRow_path)
    have "relative_path i \<in> relative_path ` set knownOutput"
      using e by (metis imageI)
    moreover from ie(1) have "i \<in> set knownInput"
      using baseIntersection_mem [of i relative_path "map relative_path knownOutput" "[]" knownInput]
      by (simp add: intersectionBy_def)
    ultimately show "p \<in> relative_path ` set knownInput \<inter> relative_path ` set knownOutput"
      using p by simp
  qed
  have insx: "map (\<lambda>(k, inputTile). insertRow (clock k) inputTile)
        (enumerate 0 (differenceBy relative_path relative_path knownInput knownOutput))
     = map (\<lambda>(k, i).
                   \<lparr> relative_path = relative_path i, index = index i, tile_name = tile_name i,
                     prev_stage_status = prev_stage_status i,
                     this_stage_status = this_stage_status i,
                     lat_x = lat_x i, lat_y = lat_y i, lat_z = lat_z i,
                     step_x = step_x i, step_y = step_y i, step_z = step_z i,
                     duration = 0, cpu_high = 0, memory_high = 0,
                     created_at = clock k, updated_at = clock k \<rparr>)
                   (enumerate 0 ?fresh)"
    unfolding fresh by (simp add: insertRow_def)
  have updx: "mergedRows clock ?n ?st ?cands
     = map (\<lambda>(k, i).
                   (the (find (\<lambda>row. relative_path row = relative_path i) (rev knownOutput)))
                     \<lparr> tile_name := tile_name i, index := index i,
                       prev_stage_status := prev_stage_status i,
                       this_stage_status := this_stage_status i,
                       lat_x := lat_x i, lat_y := lat_y i, lat_z := lat_z i,
                       step_x := step_x i, step_y := step_y i, step_z := step_z i,
                       updated_at := clock k \<rparr>)
                   (enumerate (length ?fresh) ?changed)"
    unfolding mergedRows_explicit existingTilePaths_eq changed_candidates fresh
    by (simp add: mergeRow_def)
  define plan where "plan =
     \<lparr> toInsert = map (\<lambda>(k, inputTile). insertRow (clock k) inputTile)
                    (enumerate 0 (differenceBy relative_path relative_path knownInput knownOutput)),
       toUpdate = mergedRows clock ?n ?st ?cands,
       toReset = [],
       toDelete = map relative_path
                    (differenceBy relative_path relative_path knownOutput knownInput) \<rparr>"
  have run: "muxInputOutputTiles clock knownInput knownOutput = Inr (Some plan)"
    using mux_plan [OF False, of clock] by (simp add: plan_def)
  have a: "toInsert plan = map (\<lambda>(k, i).
                   \<lparr> relative_path = relative_path i, index = index i, tile_name = tile_name i,
                     prev_stage_status = prev_stage_status i,
                     this_stage_status = this_stage_status i,
                     lat_x = lat_x i, lat_y = lat_y i, lat_z = lat_z i,
                     step_x = step_x i, step_y = step_y i, step_z = step_z i,
                     duration = 0, cpu_high = 0, memory_high = 0,
                     created_at = clock k, updated_at = clock k \<rparr>)
                   (enumerate 0 ?fresh)"
    unfolding plan_def using insx by simp
  have b: "toUpdate plan = map (\<lambda>(k, i).
                   (the (find (\<lambda>row. relative_path row = relative_path i) (rev knownOutput)))
                     \<lparr> tile_name := tile_name i, index := index i,
                       prev_stage_status := prev_stage_status i,
                       this_stage_status := this_stage_status i,
                       lat_x := lat_x i, lat_y := lat_y i, lat_z := lat_z i,
                       step_x := step_x i, step_y := step_y i, step_z := step_z i,
                       updated_at := clock k \<rparr>)
                   (enumerate (length ?fresh) ?changed)"
    unfolding plan_def using updx by simp
  have c: "toDelete plan
     = filter (\<lambda>p. p \<notin> relative_path ` set knownInput) (map relative_path knownOutput)"
    unfolding plan_def using del by simp
  have d: "toReset plan = []" by (simp add: plan_def)
  have e: "map relative_path (toInsert plan)
     = filter (\<lambda>p. p \<notin> relative_path ` set knownOutput) (map relative_path knownInput)"
    unfolding plan_def using ins by (simp add: insertRow_paths)
  have f: "relative_path ` set (toUpdate plan)
               \<subseteq> relative_path ` set knownInput \<inter> relative_path ` set knownOutput"
    unfolding plan_def using upd by simp
  have g: "(muxInputOutputTiles clock knownInput knownOutput = Inr None)
      = (1000 < int (length knownOutput) - int (length knownInput))"
    using run False by simp
  show ?thesis
    unfolding Let_def using a b c d e f g run by blast
qed

theorem mux_guard_threshold_witness:
  "muxInputOutputTiles (\<lambda>k. k) [] (map rowAt [0..<1001]) = Inr None
   \<and> int (length (map rowAt [0..<1000])) - int (length ([] :: IPipelineTileAttributes list)) \<le> 1000
   \<and> muxInputOutputTiles (\<lambda>k. k) [] (map rowAt [0..<1000]) \<noteq> Inr None
   \<and> int (length [rowOf ''a'' Incomplete, rowOf ''c'' Complete])
        - int (length [invTile ''a'' True, invTile ''b'' False]) \<le> 1000
   \<and> muxInputOutputTiles (\<lambda>k. k) [invTile ''a'' True, invTile ''b'' False]
        [rowOf ''a'' Incomplete, rowOf ''c'' Complete]
       = Inr (Some \<lparr> toInsert = [insertRow 0 (invTile ''b'' False)],
           toUpdate = [mergeRow 1 (invTile ''a'' True) (rowOf ''a'' Incomplete)],
           toReset = [], toDelete = [''c''] \<rparr>)"
proof -
  have big: "muxInputOutputTiles (\<lambda>k. k) [] (map rowAt [0..<1001]) = Inr None"
    using mux_guard_threshold [of "\<lambda>k. k" "[]" "map rowAt [0..<1001]", THEN conjunct1]
    by simp
  have edge: "muxInputOutputTiles (\<lambda>k. k) [] (map rowAt [0..<1000]) \<noteq> Inr None"
    using mux_guard_threshold [of "\<lambda>k. k" "[]" "map rowAt [0..<1000]", THEN conjunct1]
    by simp
  have le: "int (length [rowOf ''a'' Incomplete, rowOf ''c'' Complete])
        - int (length [invTile ''a'' True, invTile ''b'' False]) \<le> 1000"
    by simp
  have small: "muxInputOutputTiles (\<lambda>k. k) [invTile ''a'' True, invTile ''b'' False]
        [rowOf ''a'' Incomplete, rowOf ''c'' Complete]
       = Inr (Some \<lparr> toInsert = [insertRow 0 (invTile ''b'' False)],
           toUpdate = [mergeRow 1 (invTile ''a'' True) (rowOf ''a'' Incomplete)],
           toReset = [], toDelete = [''c''] \<rparr>)"
    using mux_guard_threshold [of "\<lambda>k. k" "[invTile ''a'' True, invTile ''b'' False]"
          "[rowOf ''a'' Incomplete, rowOf ''c'' Complete]", THEN conjunct2, rule_format, OF le]
    by (simp add: muxInputOutputTiles_def DefaultPipelineIdKey_def differenceBy_def
        intersectionBy_def existingTilePaths_def invTile_def rowOf_def statusOf_def
        enumerate_eq_zip upt_rec Let_def)
  from big edge le small show ?thesis by simp
qed

text \<open>
  C10. Every update candidate (an inventory tile kept by the intersection with the
  persisted rows on \<open>relative_path\<close>) has an entry under its path in the map built from
  the persisted rows, a persisted row of that very path. The lookup of the update loop
  therefore always finds a row: the loop never raises for want of one, whatever has been
  assigned to the rows before, and the muxer returns normally on every input, so the
  branch for a missing tile is never taken.
\<close>

theorem update_lookup_succeeds:
  "(\<forall>inputTile \<in> set (intersectionBy relative_path relative_path knownInput knownOutput).
      \<exists>existingTile. existingTilePaths knownOutput (relative_path inputTile) = Some existingTile
         \<and> relative_path existingTile = relative_path inputTile
         \<and> existingTile \<in> set knownOutput)
   \<and> (\<exists>refs store. updateLoop clock n (existingTilePaths knownOutput)
          (intersectionBy relative_path relative_path knownInput knownOutput) = Inr (refs, store))
   \<and> (\<exists>result. muxInputOutputTiles clock knownInput knownOutput = Inr result)"
proof (intro conjI ballI)
  fix inputTile
  assume "inputTile \<in> set (intersectionBy relative_path relative_path knownInput knownOutput)"
  from intersectionBy_in_store [OF this] obtain existingTile where
    "existingTilePaths knownOutput (relative_path inputTile) = Some existingTile" by auto
  with existingTilePaths_Some [OF this]
  show "\<exists>existingTile. existingTilePaths knownOutput (relative_path inputTile) = Some existingTile
         \<and> relative_path existingTile = relative_path inputTile
         \<and> existingTile \<in> set knownOutput" by simp
next
  have "\<forall>i \<in> set (intersectionBy relative_path relative_path knownInput knownOutput).
          relative_path i \<in> dom (existingTilePaths knownOutput)"
    using intersectionBy_in_store by blast
  from updateLoop_ok [OF this]
  show "\<exists>refs store. updateLoop clock n (existingTilePaths knownOutput)
          (intersectionBy relative_path relative_path knownInput knownOutput) = Inr (refs, store)" .
next
  show "\<exists>result. muxInputOutputTiles clock knownInput knownOutput = Inr result"
  proof (cases "1000 < int (length knownOutput) - int (length knownInput)")
    case True
    then show ?thesis by (simp add: mux_guarded)
  next
    case False
    from mux_plan [OF this] show ?thesis by simp
  qed
qed

theorem update_lookup_succeeds_witness:
  "invTile ''a'' True \<in> set (intersectionBy relative_path relative_path
       [invTile ''b'' False, invTile ''a'' True] [rowOf ''a'' Incomplete])
   \<and> existingTilePaths [rowOf ''a'' Incomplete] (relative_path (invTile ''a'' True))
       = Some (rowOf ''a'' Incomplete)
   \<and> (\<exists>result. muxInputOutputTiles (\<lambda>k. k) [invTile ''b'' False, invTile ''a'' True]
          [rowOf ''a'' Incomplete] = Inr result)"
  using update_lookup_succeeds [of "[invTile ''b'' False, invTile ''a'' True]"
          "[rowOf ''a'' Incomplete]" "\<lambda>k. k" 0]
  by (simp add: intersectionBy_def invTile_def rowOf_def)

text \<open>
  C3, as stated, fails when the inventory repeats a path: the persisted row \<open>a\<close> has
  \<open>prev_stage_status\<close> Incomplete, the inventory holds \<open>a\<close> twice, first complete and
  then incomplete. The second inventory tile matches the row and its \<open>this_stage_status\<close>
  equals the row's \<open>prev_stage_status\<close>, yet the row is in the update bucket.
\<close>

theorem update_bucket_any_match_counterexample:
  "relative_path (invTile ''a'' False) = relative_path (rowOf ''a'' Incomplete)
   \<and> invTile ''a'' False \<in> set [invTile ''a'' True, invTile ''a'' False]
   \<and> prev_stage_status (rowOf ''a'' Incomplete) = this_stage_status (invTile ''a'' False)
   \<and> (case muxInputOutputTiles (\<lambda>k. k) [invTile ''a'' True, invTile ''a'' False]
               [rowOf ''a'' Incomplete] of
         Inr (Some plan) \<Rightarrow> map relative_path (toUpdate plan) = [''a'']
       | _ \<Rightarrow> False)"
  by (simp add: muxInputOutputTiles_def DefaultPipelineIdKey_def differenceBy_def intersectionBy_def
        existingTilePaths_def invTile_def rowOf_def statusOf_def mergeRow_def)

text \<open>
  C3, amended. Let a plan be produced, and for a path \<open>p\<close> let \<open>i\<close> be the first inventory
  tile of that path and \<open>row\<close> the last persisted row of that path (the only ones when
  paths are not repeated). The update bucket has an entry for \<open>p\<close> if and only if
  \<open>prev_stage_status row \<noteq> this_stage_status i\<close>. Such an entry takes \<open>tile_name\<close>,
  \<open>index\<close>, both statuses, the lattice position and the lattice step from \<open>i\<close>, its
  \<open>updated_at\<close> is a reading of the clock taken during the update pass, and its other
  fields are those of \<open>row\<close>. The path is in no other bucket, so a row for which the
  predicate is false is written nowhere in the plan.
\<close>

theorem update_bucket_first_match:
  assumes plan: "muxInputOutputTiles clock knownInput knownOutput = Inr (Some plan)"
      and first: "find (\<lambda>t. relative_path t = p) knownInput = Some i"
      and last: "find (\<lambda>t. relative_path t = p) (rev knownOutput) = Some row"
  shows "(p \<in> relative_path ` set (toUpdate plan))
           = (prev_stage_status row \<noteq> this_stage_status i)
     \<and> (\<forall>r \<in> set (toUpdate plan). relative_path r = p \<longrightarrow>
           (\<exists>k. length (toInsert plan) \<le> k
               \<and> k < length (toInsert plan) + length (toUpdate plan)
               \<and> updated_at r = clock k)
           \<and> tile_name r = tile_name i \<and> index r = index i
           \<and> prev_stage_status r = prev_stage_status i
           \<and> this_stage_status r = this_stage_status i
           \<and> lat_x r = lat_x i \<and> lat_y r = lat_y i \<and> lat_z r = lat_z i
           \<and> step_x r = step_x i \<and> step_y r = step_y i \<and> step_z r = step_z i
           \<and> created_at r = created_at row \<and> duration r = duration row
           \<and> cpu_high r = cpu_high row \<and> memory_high r = memory_high row)
     \<and> p \<notin> relative_path ` set (toInsert plan)
     \<and> p \<notin> set (toDelete plan)"
proof -
  let ?cands = "intersectionBy relative_path relative_path knownInput knownOutput"
  let ?n = "length (differenceBy relative_path relative_path knownInput knownOutput)"
  let ?st = "existingTilePaths knownOutput"
  note inv = mux_plan_inv [OF plan]
  have len: "length (toInsert plan) = ?n" by (simp add: inv(1))
  from find_SomeD [OF first] have i: "i \<in> set knownInput" "relative_path i = p" by simp_all
  from find_SomeD [OF last] have row: "row \<in> set knownOutput" "relative_path row = p" by simp_all
  have st: "?st p = Some row" using last by (simp add: existingTilePaths_find)
  have pO: "p \<in> set (map relative_path knownOutput)" using row by auto
  have pI: "p \<in> relative_path ` set knownInput" using i by auto
  have cand: "i \<in> set ?cands"
    using baseIntersection_has_first [OF first pO, of "[]"] by (simp add: intersectionBy_def)
  have upd: "\<exists>k. r = mergeRow (clock k) i row \<and> ?n \<le> k \<and> k < ?n + length (toUpdate plan)
                \<and> prev_stage_status row \<noteq> this_stage_status i"
    if r: "r \<in> set (toUpdate plan)" "relative_path r = p" for r
  proof -
    from r(1) have "r \<in> set (mergedRows clock ?n ?st ?cands)" by (simp add: inv(2))
    from mergedRows_mem [OF this] obtain i' e k where
      m: "i' \<in> set ?cands" "?st (relative_path i') = Some e"
         "prev_stage_status e \<noteq> this_stage_status i'" "r = mergeRow (clock k) i' e"
         "?n \<le> k" "k < ?n + length (mergedRows clock ?n ?st ?cands)" by blast
    from existingTilePaths_Some [OF m(2)] have "relative_path e = relative_path i'" by simp
    with m(4) r(2) have pi: "relative_path i' = p" by (simp add: mergeRow_path)
    from m(1) have "i' \<in> set (baseIntersection relative_path (map relative_path knownOutput) [] knownInput)"
      by (simp add: intersectionBy_def)
    from baseIntersection_first [OF this] pi first have "i' = i" by simp
    moreover from m(2) pi st have "e = row" by simp
    ultimately show ?thesis using m(3,4,5,6) by (auto simp: inv(2))
  qed
  have c1: "(p \<in> relative_path ` set (toUpdate plan))
           = (prev_stage_status row \<noteq> this_stage_status i)"
  proof
    assume "p \<in> relative_path ` set (toUpdate plan)"
    then obtain r where "r \<in> set (toUpdate plan)" "relative_path r = p" by auto
    from upd [OF this] show "prev_stage_status row \<noteq> this_stage_status i" by blast
  next
    assume "prev_stage_status row \<noteq> this_stage_status i"
    from mergedRows_has [OF cand _ this, of ?st clock ?n] st i(2) obtain k where
      "mergeRow (clock k) i row \<in> set (toUpdate plan)" by (auto simp: inv(2))
    moreover have "relative_path (mergeRow (clock k) i row) = p"
      by (simp add: mergeRow_path row(2))
    ultimately show "p \<in> relative_path ` set (toUpdate plan)" by (metis imageI)
  qed
  have c2: "(\<exists>k. length (toInsert plan) \<le> k
               \<and> k < length (toInsert plan) + length (toUpdate plan)
               \<and> updated_at r = clock k)
           \<and> tile_name r = tile_name i \<and> index r = index i
           \<and> prev_stage_status r = prev_stage_status i
           \<and> this_stage_status r = this_stage_status i
           \<and> lat_x r = lat_x i \<and> lat_y r = lat_y i \<and> lat_z r = lat_z i
           \<and> step_x r = step_x i \<and> step_y r = step_y i \<and> step_z r = step_z i
           \<and> created_at r = created_at row \<and> duration r = duration row
           \<and> cpu_high r = cpu_high row \<and> memory_high r = memory_high row"
    if r: "r \<in> set (toUpdate plan)" "relative_path r = p" for r
  proof -
    from upd [OF r] obtain k where
      k: "r = mergeRow (clock k) i row" "?n \<le> k" "k < ?n + length (toUpdate plan)" by blast
    from mergeRow_fields [OF k(1)] k(2,3) show ?thesis
      unfolding len by blast
  qed
  have c3: "p \<notin> relative_path ` set (toInsert plan)"
  proof -
    have "relative_path ` set (toInsert plan)
            = relative_path ` set (differenceBy relative_path relative_path knownInput knownOutput)"
      unfolding inv(1) set_map [symmetric] map_map insertRow_paths ..
    with pO show ?thesis by (simp add: differenceBy_keys)
  qed
  have c4: "p \<notin> set (toDelete plan)"
    using pI by (simp add: inv(4) differenceBy_keys)
  from c1 c2 c3 c4 show ?thesis by blast
qed

theorem update_bucket_first_match_witness:
  "(''a'' \<in> relative_path ` set (toUpdate
       \<lparr> toInsert = [],
         toUpdate = [mergeRow 0 (invTile ''a'' True) (rowOf ''a'' Incomplete)],
         toReset = [], toDelete = [] \<rparr>))
     = (prev_stage_status (rowOf ''a'' Incomplete) \<noteq> this_stage_status (invTile ''a'' True))
   \<and> muxInputOutputTiles (\<lambda>k. k) [invTile ''a'' True, invTile ''a'' False]
        [rowOf ''a'' Incomplete]
       = Inr (Some \<lparr> toInsert = [],
           toUpdate = [mergeRow 0 (invTile ''a'' True) (rowOf ''a'' Incomplete)],
           toReset = [], toDelete = [] \<rparr>)"
proof -
  have run: "muxInputOutputTiles (\<lambda>k. k) [invTile ''a'' True, invTile ''a'' False]
        [rowOf ''a'' Incomplete]
       = Inr (Some \<lparr> toInsert = [],
           toUpdate = [mergeRow 0 (invTile ''a'' True) (rowOf ''a'' Incomplete)],
           toReset = [], toDelete = [] \<rparr>)"
    by (simp add: muxInputOutputTiles_def DefaultPipelineIdKey_def differenceBy_def intersectionBy_def
          existingTilePaths_def invTile_def rowOf_def statusOf_def)
  have first: "find (\<lambda>t. relative_path t = ''a'') [invTile ''a'' True, invTile ''a'' False]
                 = Some (invTile ''a'' True)"
    by (simp add: invTile_def)
  have last: "find (\<lambda>t. relative_path t = ''a'') (rev [rowOf ''a'' Incomplete])
                 = Some (rowOf ''a'' Incomplete)"
    by (simp add: rowOf_def)
  from update_bucket_first_match [OF run first last] run show ?thesis by blast
qed

text \<open>
  C8, as stated, fails: an inventory that holds the path \<open>a\<close> twice, with nothing
  persisted, yields an insert bucket with two entries for \<open>a\<close>, and the table after the
  plan holds the path twice.
\<close>

theorem insert_bucket_repeats_counterexample:
  "(case muxInputOutputTiles (\<lambda>k. k) [invTile ''a'' False, invTile ''a'' True] [] of
      Inr (Some plan) \<Rightarrow> map relative_path (toInsert plan) = [''a'', ''a'']
          \<and> map relative_path (applyPlan plan []) = [''a'', ''a'']
    | _ \<Rightarrow> False)"
  by (simp add: muxInputOutputTiles_def DefaultPipelineIdKey_def differenceBy_def intersectionBy_def
        existingTilePaths_def invTile_def insertRow_def applyPlan_def
        enumerate_eq_zip upt_rec)

text \<open>
  C8, amended. Of the buckets of a produced plan, only the update bucket is freed of
  repeated paths by the muxer: it has at most one entry per \<open>relative_path\<close> for every
  inventory. The insert bucket has at most one entry per path when the inventory paths
  are pairwise different, the delete bucket when the persisted paths are; when both
  hold, the table after the plan has pairwise different paths again.
\<close>

theorem plan_buckets_distinct:
  assumes plan: "muxInputOutputTiles clock knownInput knownOutput = Inr (Some plan)"
  shows "distinct (map relative_path (toUpdate plan))
     \<and> (distinct (map relative_path knownInput) \<longrightarrow>
           distinct (map relative_path (toInsert plan)))
     \<and> (distinct (map relative_path knownOutput) \<longrightarrow> distinct (toDelete plan))
     \<and> (distinct (map relative_path knownInput) \<and> distinct (map relative_path knownOutput) \<longrightarrow>
           distinct (map relative_path (applyPlan plan knownOutput)))"
proof -
  note inv = mux_plan_inv [OF plan]
  let ?ins = "differenceBy relative_path relative_path knownInput knownOutput"
  have insp: "map relative_path (toInsert plan) = map relative_path ?ins"
    unfolding inv(1) map_map insertRow_paths ..
  have u: "distinct (map relative_path (toUpdate plan))"
    unfolding inv(2)
  proof (rule mergedRows_distinct)
    show "\<forall>p e. existingTilePaths knownOutput p = Some e \<longrightarrow> relative_path e = p"
      using existingTilePaths_Some by blast
    show "distinct (map relative_path
            (intersectionBy relative_path relative_path knownInput knownOutput))"
      by (simp add: intersectionBy_def baseIntersection_distinct)
  qed
  have i: "distinct (map relative_path (toInsert plan))"
    if "distinct (map relative_path knownInput)"
    unfolding insp using that by (rule differenceBy_distinct)
  have d: "distinct (toDelete plan)" if "distinct (map relative_path knownOutput)"
    unfolding inv(4) using that by (rule differenceBy_distinct)
  have a: "distinct (map relative_path (applyPlan plan knownOutput))"
    if "distinct (map relative_path knownInput)" "distinct (map relative_path knownOutput)"
  proof -
    have "set (map relative_path knownOutput) \<inter> set (map relative_path ?ins) = {}"
      using differenceBy_keys [of relative_path relative_path knownInput knownOutput]
      by auto
    with that(2) i [OF that(1)]
    have "distinct (map relative_path (knownOutput @ toInsert plan))"
      by (simp add: insp)
    then show ?thesis unfolding applyPlan_paths by (rule distinct_filter)
  qed
  from u i d a show ?thesis by blast
qed

theorem plan_buckets_distinct_witness:
  "distinct (map relative_path [invTile ''a'' True, invTile ''b'' False])
   \<and> distinct (map relative_path [rowOf ''a'' Incomplete, rowOf ''c'' Complete])
   \<and> muxInputOutputTiles (\<lambda>k. k) [invTile ''a'' True, invTile ''b'' False]
        [rowOf ''a'' Incomplete, rowOf ''c'' Complete]
       = Inr (Some \<lparr> toInsert = [insertRow 0 (invTile ''b'' False)],
           toUpdate = [mergeRow 1 (invTile ''a'' True) (rowOf ''a'' Incomplete)],
           toReset = [], toDelete = [''c''] \<rparr>)
   \<and> distinct (map relative_path (applyPlan
         \<lparr> toInsert = [insertRow 0 (invTile ''b'' False)],
           toUpdate = [mergeRow 1 (invTile ''a'' True) (rowOf ''a'' Incomplete)],
           toReset = [], toDelete = [''c''] \<rparr>
         [rowOf ''a'' Incomplete, rowOf ''c'' Complete]))"
proof -
  have run: "muxInputOutputTiles (\<lambda>k. k) [invTile ''a'' True, invTile ''b'' False]
        [rowOf ''a'' Incomplete, rowOf ''c'' Complete]
       = Inr (Some \<lparr> toInsert = [insertRow 0 (invTile ''b'' False)],
           toUpdate = [mergeRow 1 (invTile ''a'' True) (rowOf ''a'' Incomplete)],
           toReset = [], toDelete = [''c''] \<rparr>)"
    by (simp add: muxInputOutputTiles_def DefaultPipelineIdKey_def differenceBy_def intersectionBy_def
          existingTilePaths_def invTile_def rowOf_def statusOf_def
          enumerate_eq_zip upt_rec)
  have dI: "distinct (map relative_path [invTile ''a'' True, invTile ''b'' False])"
    by (simp add: invTile_def)
  have dO: "distinct (map relative_path [rowOf ''a'' Incomplete, rowOf ''c'' Complete])"
    by (simp add: rowOf_def)
  from plan_buckets_distinct [OF run] dI dO run show ?thesis by blast
qed

text \<open>
  C6, as stated, fails: with the pairs \<open>/a \<mapsto> /b\<close> and \<open>/b \<mapsto> /c\<close> in that order, the
  path \<open>/a/x\<close> matches the first pair, which alone would give \<open>/b/x\<close>; the second pair
  is applied to that result and the mapper returns \<open>/c/x\<close>.
\<close>

theorem mapRoot_later_pair_counterexample:
  "startsWith ''/a/x'' (remote \<lparr> remote = ''/a'', local = ''/b'' \<rparr>)
   \<and> local \<lparr> remote = ''/a'', local = ''/b'' \<rparr>
        @ drop (length (remote \<lparr> remote = ''/a'', local = ''/b'' \<rparr>)) ''/a/x'' = ''/b/x''
   \<and> mapRoot [\<lparr> remote = ''/a'', local = ''/b'' \<rparr>, \<lparr> remote = ''/b'', local = ''/c'' \<rparr>]
        ''/a/x'' = ''/c/x''"
  by (simp add: mapRoot_def startsWith_def)

text \<open>
  C6, amended. The path mapper goes through all the pairs in order, each tested against
  the path as rewritten so far. A path of which no \<open>remote\<close> is a literal prefix is
  returned unchanged. Otherwise the first pair whose \<open>remote\<close> is a prefix rewrites the
  path to \<open>local\<close> followed by the remainder, and the pairs after it are applied to the
  rewritten path in the same way; when none of them matches the rewritten path, the
  result is \<open>local\<close> followed by the remainder.
\<close>

theorem mapRoot_first_match:
  "((\<forall>d \<in> set driveMapping. \<not> startsWith root (remote d)) \<longrightarrow>
       mapRoot driveMapping root = root)
   \<and> ((\<forall>e \<in> set before. \<not> startsWith root (remote e)) \<and> startsWith root (remote d) \<longrightarrow>
       mapRoot (before @ d # after) root
         = mapRoot after (local d @ drop (length (remote d)) root)
       \<and> ((\<forall>e \<in> set after.
              \<not> startsWith (local d @ drop (length (remote d)) root) (remote e)) \<longrightarrow>
            mapRoot (before @ d # after) root = local d @ drop (length (remote d)) root))"
proof (intro conjI impI)
  assume "\<forall>d \<in> set driveMapping. \<not> startsWith root (remote d)"
  then show "mapRoot driveMapping root = root" by (rule mapRoot_no_match)
next
  assume a: "(\<forall>e \<in> set before. \<not> startsWith root (remote e)) \<and> startsWith root (remote d)"
  then have "mapRoot before root = root" by (simp add: mapRoot_no_match)
  with a show step: "mapRoot (before @ d # after) root
         = mapRoot after (local d @ drop (length (remote d)) root)"
    by (simp add: mapRoot_append mapRoot_Cons)
  assume "\<forall>e \<in> set after.
              \<not> startsWith (local d @ drop (length (remote d)) root) (remote e)"
  then show "mapRoot (before @ d # after) root = local d @ drop (length (remote d)) root"
    unfolding step by (rule mapRoot_no_match)
qed

theorem mapRoot_first_match_witness:
  "mapRoot ([\<lparr> remote = ''/x'', local = ''/y'' \<rparr>] @ \<lparr> remote = ''/a'', local = ''/b'' \<rparr>
             # [\<lparr> remote = ''/a'', local = ''/c'' \<rparr>]) ''/a/t'' = ''/b/t''
   \<and> mapRoot [\<lparr> remote = ''/x'', local = ''/y'' \<rparr>] ''/a/t'' = ''/a/t''"
  using mapRoot_first_match [of "[\<lparr> remote = ''/x'', local = ''/y'' \<rparr>]" "''/a/t''"
           "[\<lparr> remote = ''/x'', local = ''/y'' \<rparr>]" "\<lparr> remote = ''/a'', local = ''/b'' \<rparr>"
           "[\<lparr> remote = ''/a'', local = ''/c'' \<rparr>]"]
  by (simp add: startsWith_def mapRoot_def)

text \<open>
  C9. For every tile record parsed from either inventory format, the \<open>relative_path\<close> of
  the record is the \<open>relativePath\<close> of the input with every backslash replaced by a slash,
  in document order, and it contains no backslash.
\<close>

theorem parsed_paths_normalized:
  "(parsePipelineDefaultInput jsonContent w = (w', Inr ts) \<longrightarrow>
      (\<exists>jts. tiles jsonContent = Some jts
         \<and> map relative_path ts
             = map (\<lambda>tile. map (\<lambda>c. if c = CHR 0x5C then CHR ''/'' else c) (relativePath tile)) jts)
      \<and> (\<forall>t \<in> set ts. CHR 0x5C \<notin> set (relative_path t)))
   \<and> (parseDashboardInput jsonContent w = (w', Inr ts) \<longrightarrow>
      map relative_path ts
        = map (\<lambda>tile. map (\<lambda>c. if c = CHR 0x5C then CHR ''/'' else c) (dash_relativePath tile))
            (concat (map snd (tileMap jsonContent)))
      \<and> (\<forall>t \<in> set ts. CHR 0x5C \<notin> set (relative_path t)))"
proof (intro conjI impI)
  assume p: "parsePipelineDefaultInput jsonContent w = (w', Inr ts)"
  then obtain jts where jts: "tiles jsonContent = Some jts" "ts = map pipelineTile jts"
    by (auto simp: parsePipelineDefaultInput_def Let_def split: option.splits)
  then show "\<exists>jts. tiles jsonContent = Some jts
         \<and> map relative_path ts
             = map (\<lambda>tile. map (\<lambda>c. if c = CHR 0x5C then CHR ''/'' else c) (relativePath tile)) jts"
    by (simp add: pipelineTile_path normalizePath_def comp_def)
  from jts show "\<forall>t \<in> set ts. CHR 0x5C \<notin> set (relative_path t)"
    by (auto simp: pipelineTile_path normalizePath_no_backslash)
next
  assume d: "parseDashboardInput jsonContent w = (w', Inr ts)"
  then have ts: "ts = concat (map (\<lambda>(prop, group). map dashboardTile group) (tileMap jsonContent))"
    by (auto simp: parseDashboardInput_def Let_def split: option.splits)
  have "concat (map (\<lambda>(prop, group). map dashboardTile group) m)
          = map dashboardTile (concat (map snd m))" for m :: "(string \<times> IDashboardJsonTile list) list"
    by (induction m) auto
  with ts have ts': "ts = map dashboardTile (concat (map snd (tileMap jsonContent)))" by simp
  then show "map relative_path ts
        = map (\<lambda>tile. map (\<lambda>c. if c = CHR 0x5C then CHR ''/'' else c) (dash_relativePath tile))
            (concat (map snd (tileMap jsonContent)))"
    by (simp add: dashboardTile_path normalizePath_def comp_def)
  from ts' show "\<forall>t \<in> set ts. CHR 0x5C \<notin> set (relative_path t)"
    by (auto simp: dashboardTile_path normalizePath_no_backslash)
qed

theorem parsed_paths_normalized_witness:
  "map relative_path (projr (snd (parsePipelineDefaultInput s1Document emptyWorld)))
      = [''a/b.tif'', ''c/d.tif'']
   \<and> map relative_path (projr (snd (parseDashboardInput s5Document emptyWorld))) = [''g/h'']
   \<and> CHR 0x5C \<notin> set ''a/b.tif'' \<and> CHR 0x5C \<notin> set ''g/h''"
proof -
  have p: "parsePipelineDefaultInput s1Document emptyWorld
             = (emptyWorld, Inr (map pipelineTile (the (tiles s1Document))))"
    by (simp add: parsePipelineDefaultInput_def s1Document_def)
  have d: "parseDashboardInput s5Document emptyWorld
             = (emptyWorld \<lparr> sample_extents := the (monitor s5Document) \<rparr>,
                Inr (map dashboardTile (concat (map snd (tileMap s5Document)))))"
    by (simp add: parseDashboardInput_def s5Document_def)
  from parsed_paths_normalized [of s1Document emptyWorld emptyWorld
         "map pipelineTile (the (tiles s1Document))"] p
  have "map relative_path (map pipelineTile (the (tiles s1Document)))
          = [''a/b.tif'', ''c/d.tif'']"
    by (simp add: s1Document_def)
  moreover
  from parsed_paths_normalized [of s5Document emptyWorld
         "emptyWorld \<lparr> sample_extents := the (monitor s5Document) \<rparr>"
         "map dashboardTile (concat (map snd (tileMap s5Document)))"] d
  have "map relative_path (map dashboardTile (concat (map snd (tileMap s5Document))))
          = [''g/h'']"
    by (simp add: s5Document_def)
  ultimately show ?thesis using p d by simp
qed







text \<open>
  C4. Whatever the metrics sink and the hub do and however long the consumer is
  observed: if the delivery is acknowledged, the payload was decoded, some call of the hub
  returned true, and the acknowledgement is the last event, directly after that
  successful dispatch, which itself follows the metrics write of the same run; nothing
  before it is an acknowledgement or a successful dispatch. A message for which the hub
  never returns true is never acknowledged.
\<close>

theorem ack_only_after_success:
  "(Ack \<in> set (consume decodes env fuel) \<longrightarrow>
      decodes
      \<and> (\<exists>before n. n < fuel \<and> env n = HubReturns True
            \<and> consume decodes env fuel = before @ [MetricsWrite, HubDispatch True, Ack]
            \<and> Ack \<notin> set before \<and> HubDispatch True \<notin> set before))
   \<and> ((\<forall>k. env k \<noteq> HubReturns True) \<longrightarrow> Ack \<notin> set (consume decodes env fuel))"
proof -
  obtain evs resolved where run: "acknowledgeMessage env 0 fuel = (evs, resolved)"
    by (cases "acknowledgeMessage env 0 fuel")
  note noack = acknowledgeMessage_no_ack [OF run]
  have first: "decodes
      \<and> (\<exists>before n. n < fuel \<and> env n = HubReturns True
            \<and> consume decodes env fuel = before @ [MetricsWrite, HubDispatch True, Ack]
            \<and> Ack \<notin> set before \<and> HubDispatch True \<notin> set before)"
    if ack: "Ack \<in> set (consume decodes env fuel)"
  proof -
    from ack have d: decodes by (cases decodes) (simp_all add: consume_def)
    from ack d run noack have r: "resolved" by (cases resolved) (simp_all add: consume_def)
    with run acknowledgeMessage_resolved [of env 0 fuel evs] obtain n where
      n: "n < fuel" "env n = HubReturns True"
         "evs = concat (replicate n [MetricsWrite, HubDispatch False])
                  @ [MetricsWrite, HubDispatch True]" by auto
    let ?before = "concat (replicate n [MetricsWrite, HubDispatch False])"
    have "consume decodes env fuel = ?before @ [MetricsWrite, HubDispatch True, Ack]"
      using d r run n(3) by (simp add: consume_def)
    moreover have "Ack \<notin> set ?before" "HubDispatch True \<notin> set ?before" by auto
    ultimately show ?thesis using d n(1,2) by blast
  qed
  have second: "Ack \<notin> set (consume decodes env fuel)" if "\<forall>k. env k \<noteq> HubReturns True"
  proof
    assume "Ack \<in> set (consume decodes env fuel)"
    from first [OF this] that show False by blast
  qed
  from first second show ?thesis by blast
qed

theorem ack_only_after_success_witness:
  "consume True refusedOnce 3
     = [MetricsWrite, HubDispatch False] @ [MetricsWrite, HubDispatch True, Ack]
   \<and> Ack \<notin> set (consume True metricsDown 3)
   \<and> Ack \<notin> set (consume True (\<lambda>k. HubReturns False) 3)"
  using ack_only_after_success [of True refusedOnce 3]
        ack_only_after_success [of True metricsDown 3]
        ack_only_after_success [of True "\<lambda>k. HubReturns False" 3]
  by (simp add: consume_def refusedOnce_def metricsDown_def numeral_3_eq_3)

text \<open>
  C5, as stated, fails: when the hub refuses the first dispatch and accepts the second,
  processing returns success and the message is acknowledged, but two metrics writes
  have been performed, one in each run of \<open>acknowledgeMessage\<close>.
\<close>

theorem one_metrics_write_counterexample:
  "consume True refusedOnce 2
     = [MetricsWrite, HubDispatch False, MetricsWrite, HubDispatch True, Ack]
   \<and> count_list (consume True refusedOnce 2) MetricsWrite = 2"
  by (simp add: consume_def refusedOnce_def numeral_2_eq_2)

text \<open>
  C5, amended. When the hub refuses \<open>n\<close> dispatches and accepts the next one, and the
  metrics sink does not fail, the consumer performs one metrics write before each
  dispatch, \<open>n + 1\<close> in all (exactly one if and only if the first dispatch succeeds),
  exactly one dispatch succeeds, and the message is acknowledged once, at the end.
\<close>

theorem metrics_write_per_dispatch:
  assumes "env n = HubReturns True" and "\<forall>j<n. env j = HubReturns False" and "n < fuel"
  shows "consume True env fuel
           = concat (replicate n [MetricsWrite, HubDispatch False])
               @ [MetricsWrite, HubDispatch True, Ack]
     \<and> count_list (consume True env fuel) MetricsWrite = n + 1
     \<and> count_list (consume True env fuel) (HubDispatch True) = 1
     \<and> count_list (consume True env fuel) Ack = 1
     \<and> (count_list (consume True env fuel) MetricsWrite = 1) = (n = 0)"
proof -
  from assms acknowledgeMessage_retries [of env 0 n fuel]
  have "acknowledgeMessage env 0 fuel
       = (concat (replicate n [MetricsWrite, HubDispatch False])
            @ [MetricsWrite, HubDispatch True], True)" by simp
  then have c: "consume True env fuel
           = concat (replicate n [MetricsWrite, HubDispatch False])
               @ [MetricsWrite, HubDispatch True, Ack]"
    by (simp add: consume_def)
  show ?thesis unfolding c by (simp only: count_retries) simp
qed

theorem metrics_write_per_dispatch_witness:
  "consume True refusedOnce 5
     = [MetricsWrite, HubDispatch False, MetricsWrite, HubDispatch True, Ack]
   \<and> count_list (consume True refusedOnce 5) MetricsWrite = 2
   \<and> refusedOnce 1 = HubReturns True \<and> refusedOnce 0 = HubReturns False"
proof -
  have a: "refusedOnce 1 = HubReturns True" by (simp add: refusedOnce_def)
  have b: "\<forall>j<1. refusedOnce j = HubReturns False" by (simp add: refusedOnce_def)
  have c: "(1::nat) < 5" by simp
  from metrics_write_per_dispatch [OF a b c] a b show ?thesis by simp
qed

end
